theory Spec2Isabelle
  imports Complex_Main "HOL-Library.Sublist"
begin

unbundle bit_operations_syntax

section \<open>Python values and exceptions\<close>

text \<open>
  Python integers are unbounded and are modelled as \<open>int\<close>. An exception that the
  source can raise is a value of type \<open>error\<close>; a computation that may raise returns
  \<open>error + 'a\<close> with \<open>Inl\<close> for the exception.
\<close>

datatype error = NameError | ValueError | ZeroDivisionError | IndexError

definition bind_err :: "error + 'a \<Rightarrow> ('a \<Rightarrow> error + 'b) \<Rightarrow> error + 'b" where
  "bind_err m f = (case m of Inl e \<Rightarrow> Inl e | Inr x \<Rightarrow> f x)"

text \<open>\<open>xs[i]\<close>: a negative index counts from the end, an index out of range raises.\<close>

definition py_index :: "'a list \<Rightarrow> int \<Rightarrow> error + 'a" where
  "py_index xs i =
     (let n = int (length xs); j = (if i < 0 then i + n else i)
      in if 0 \<le> j \<and> j < n then Inr (xs ! nat j) else Inl IndexError)"

text \<open>\<open>a << b\<close> and \<open>a >> b\<close>: a negative shift count raises ValueError.\<close>

definition py_shl :: "int \<Rightarrow> int \<Rightarrow> error + int" where
  "py_shl a b = (if b < 0 then Inl ValueError else Inr (push_bit (nat b) a))"

definition py_shr :: "int \<Rightarrow> int \<Rightarrow> error + int" where
  "py_shr a b = (if b < 0 then Inl ValueError else Inr (drop_bit (nat b) a))"

text \<open>\<open>pattern in line\<close> on strings: \<open>pattern\<close> occurs as a contiguous block.\<close>

fun str_contains :: "string \<Rightarrow> string \<Rightarrow> bool" where
  "str_contains p [] = (p = [])"
| "str_contains p (c # cs) = (prefix p (c # cs) \<or> str_contains p cs)"

section \<open>1-power\_of\_2.py\<close>

text \<open>
  The loop \<open>while n % 2 == 0: n //= 2\<close> of \<open>is_power_of_two_basic\<close>. It does not
  terminate on \<open>0\<close>, so it is a partial function: \<open>None\<close> is "never returns".
\<close>

partial_function (option) halve_while_even :: "int \<Rightarrow> int option" where
  "halve_while_even n = (if n mod 2 = 0 then halve_while_even (n div 2) else Some n)"

definition is_power_of_two_basic :: "int \<Rightarrow> bool option" where
  "is_power_of_two_basic n =
     (if n \<le> 0 then Some False
      else map_option (\<lambda>m. m = 1) (halve_while_even n))"

definition is_power_of_two_bit_manipulation :: "int \<Rightarrow> bool" where
  "is_power_of_two_bit_manipulation n = (n > 0 \<and> (n AND (n - 1)) = 0)"

section \<open>appl-reverse-bits.py\<close>

text \<open>
  \<open>reverse_bits_loop c n result\<close> runs the remaining \<open>c\<close> iterations of
  \<open>for i in range(32)\<close> from the current \<open>n\<close> and \<open>result\<close>.
\<close>

fun reverse_bits_loop :: "nat \<Rightarrow> int \<Rightarrow> int \<Rightarrow> int" where
  "reverse_bits_loop 0 n result = result"
| "reverse_bits_loop (Suc c) n result =
     (let bit = n AND 1;
          result = (push_bit 1 result) OR bit;
          n = drop_bit 1 n
      in reverse_bits_loop c n result)"

definition reverse_bits :: "int \<Rightarrow> int" where
  "reverse_bits n = reverse_bits_loop 32 n 0"

section \<open>reverse-list.py\<close>

text \<open>
  The file is a docstring followed by a loop at module level. The module namespace maps
  names to values; reading a name that is not bound raises NameError. The loop reads
  \<open>n\<close> and \<open>result\<close>, which nothing binds before.
\<close>

type_synonym namespace = "string \<rightharpoonup> int"

definition load_name :: "namespace \<Rightarrow> string \<Rightarrow> error + int" where
  "load_name ns x = (case ns x of None \<Rightarrow> Inl NameError | Some v \<Rightarrow> Inr v)"

definition reverse_list_body :: "namespace \<Rightarrow> error + namespace" where
  "reverse_list_body ns =
     bind_err (load_name ns ''n'') (\<lambda>n.
       let ns1 = ns(''bit'' \<mapsto> n AND 1) in
       bind_err (load_name ns1 ''result'') (\<lambda>result.
       bind_err (load_name ns1 ''bit'') (\<lambda>bit.
         let ns2 = ns1(''result'' \<mapsto> (push_bit 1 result) OR bit) in
         bind_err (load_name ns2 ''n'') (\<lambda>n.
           Inr (ns2(''n'' \<mapsto> drop_bit 1 n))))))"

fun reverse_list_loop :: "int list \<Rightarrow> namespace \<Rightarrow> error + namespace" where
  "reverse_list_loop [] ns = Inr ns"
| "reverse_list_loop (i # rest) ns =
     (case reverse_list_body (ns(''i'' \<mapsto> i)) of
        Inl e \<Rightarrow> Inl e
      | Inr ns' \<Rightarrow> reverse_list_loop rest ns')"

definition reverse_list_script :: "error + namespace" where
  "reverse_list_script = reverse_list_loop (map int [0..<32]) Map.empty"

section \<open>two\_sum\_deep\_dive.py\<close>

text \<open>
  \<open>optimized_two_sum\<close>: the dictionary \<open>hash_map\<close> maps a number to the last index
  where it was seen; \<open>i\<close> is the index of the head of the remaining list.
\<close>

fun optimized_two_sum_loop :: "(int \<rightharpoonup> nat) \<Rightarrow> nat \<Rightarrow> int list \<Rightarrow> int \<Rightarrow> nat list" where
  "optimized_two_sum_loop hash_map i [] target = []"
| "optimized_two_sum_loop hash_map i (num # rest) target =
     (let complement = target - num in
      case hash_map complement of
        Some j \<Rightarrow> [j, i]
      | None \<Rightarrow> optimized_two_sum_loop (hash_map(num \<mapsto> i)) (Suc i) rest target)"

definition optimized_two_sum :: "int list \<Rightarrow> int \<Rightarrow> nat list" where
  "optimized_two_sum nums target = optimized_two_sum_loop Map.empty 0 nums target"

text \<open>\<open>two_sum_hash_table\<close> is the same search with a trace printed at every step.\<close>

fun two_sum_hash_table_loop :: "(int \<rightharpoonup> nat) \<Rightarrow> nat \<Rightarrow> int list \<Rightarrow> int \<Rightarrow> nat list" where
  "two_sum_hash_table_loop num_map i [] target = []"
| "two_sum_hash_table_loop num_map i (num # rest) target =
     (let complement = target - num;
          in_map = (complement \<in> dom num_map)
      in if in_map then [the (num_map complement), i]
         else two_sum_hash_table_loop (num_map(num \<mapsto> i)) (Suc i) rest target)"

definition two_sum_hash_table :: "int list \<Rightarrow> int \<Rightarrow> nat list" where
  "two_sum_hash_table nums target = two_sum_hash_table_loop Map.empty 0 nums target"

section \<open>binary\_search\_deep\_dive.py\<close>

function safe_binary_search_loop ::
  "'a::linorder list \<Rightarrow> 'a \<Rightarrow> int \<Rightarrow> int \<Rightarrow> error + int" where
  "safe_binary_search_loop arr target left right =
     (if left \<le> right then
        (let mid = left + (right - left) div 2 in
         case py_index arr mid of
           Inl e \<Rightarrow> Inl e
         | Inr v \<Rightarrow>
             if v = target then Inr mid
             else if v < target then safe_binary_search_loop arr target (mid + 1) right
             else safe_binary_search_loop arr target left (mid - 1))
      else Inr (- 1))"
  by pat_completeness auto
termination
  by (relation "measure (\<lambda>(arr, target, left, right). nat (right - left + 1))") auto

definition safe_binary_search :: "'a::linorder list \<Rightarrow> 'a \<Rightarrow> error + int" where
  "safe_binary_search arr target =
     (if arr = [] then Inr (- 1)
      else safe_binary_search_loop arr target 0 (int (length arr) - 1))"

section \<open>parse-ltssm-logfile.py\<close>

record LTSSMEvent =
  timestamp :: rat
  state :: string
  data :: string

record LTSSMAnalysis =
  first_l0_time :: "rat option"
  retrain_count :: nat
  longest_recovery_dwell :: rat
  total_time :: rat
  state_dwells :: "string \<rightharpoonup> rat"
  speed_changes :: "(rat \<times> string \<times> string) list"

text \<open>The local variables of \<open>parse_ltssm_trace\<close> that the loop over the events updates.\<close>

record ltssm_locals =
  l_first_l0_time :: "rat option"
  l_retrain_count :: nat
  l_longest_recovery_dwell :: rat
  l_current_recovery_start :: "rat option"
  l_state_dwells :: "string \<rightharpoonup> rat"
  l_speed_changes :: "(rat \<times> string \<times> string) list"
  l_prev_event :: LTSSMEvent
  l_current_speed :: string

definition ltssm_step :: "ltssm_locals \<Rightarrow> LTSSMEvent \<Rightarrow> ltssm_locals" where
  "ltssm_step s event =
     (let prev_event = l_prev_event s;
          dwell_time = timestamp event - timestamp prev_event;
          dwells0 = (if state prev_event \<notin> dom (l_state_dwells s)
                     then (l_state_dwells s)(state prev_event \<mapsto> 0)
                     else l_state_dwells s);
          dwells = dwells0(state prev_event \<mapsto> the (dwells0 (state prev_event)) + dwell_time);
          first_l0 = (if state event = ''L0'' \<and> l_first_l0_time s = None
                      then Some (timestamp event) else l_first_l0_time s);
          retrains = (if state prev_event = ''Recovery'' \<and> state event \<in> set [''Config'', ''Polling'']
                      then l_retrain_count s + 1 else l_retrain_count s);
          (start, longest) =
             (if state prev_event = ''Recovery'' then
                (if l_current_recovery_start s = None then Some (timestamp prev_event)
                 else l_current_recovery_start s,
                 l_longest_recovery_dwell s)
              else
                (case l_current_recovery_start s of
                   Some t0 \<Rightarrow> (None, max (l_longest_recovery_dwell s) (timestamp prev_event - t0))
                 | None \<Rightarrow> (None, l_longest_recovery_dwell s)));
          (changes, speed) =
             (if data event \<noteq> [] \<and> str_contains ''Gen'' (data event)
                 \<and> data event \<noteq> l_current_speed s
              then (l_speed_changes s @ [(timestamp event, l_current_speed s, data event)],
                    data event)
              else (l_speed_changes s, l_current_speed s))
      in \<lparr>l_first_l0_time = first_l0, l_retrain_count = retrains,
          l_longest_recovery_dwell = longest, l_current_recovery_start = start,
          l_state_dwells = dwells, l_speed_changes = changes,
          l_prev_event = event, l_current_speed = speed\<rparr>)"

text \<open>
  \<open>parse_ltssm_trace\<close> on the rows that \<open>csv.DictReader\<close> yields, each already
  converted to an event (a row that does not convert makes the source return the empty
  analysis, as an empty file does).
\<close>

definition parse_ltssm_trace :: "LTSSMEvent list \<Rightarrow> LTSSMAnalysis" where
  "parse_ltssm_trace events =
     (if events = [] then
        \<lparr>first_l0_time = None, retrain_count = 0, longest_recovery_dwell = 0,
         total_time = 0, state_dwells = Map.empty, speed_changes = []\<rparr>
      else
        (let s = foldl ltssm_step
                   \<lparr>l_first_l0_time = None, l_retrain_count = 0,
                    l_longest_recovery_dwell = 0, l_current_recovery_start = None,
                    l_state_dwells = Map.empty, l_speed_changes = [],
                    l_prev_event = hd events, l_current_speed = ''Gen1''\<rparr>
                   (tl events);
             longest = (case l_current_recovery_start s of
                          Some t0 \<Rightarrow> max (l_longest_recovery_dwell s) (timestamp (last events) - t0)
                        | None \<Rightarrow> l_longest_recovery_dwell s)
         in \<lparr>first_l0_time = l_first_l0_time s, retrain_count = l_retrain_count s,
             longest_recovery_dwell = longest,
             total_time = timestamp (last events) - timestamp (hd events),
             state_dwells = l_state_dwells s, speed_changes = l_speed_changes s\<rparr>))"

section \<open>nvda-parse-log-print-line-before-after-target.py\<close>

text \<open>\<open>line.rstrip('\n\r')\<close>: trailing line feeds and carriage returns are removed.\<close>

definition rstrip_newlines :: "string \<Rightarrow> string" where
  "rstrip_newlines s = rev (dropWhile (\<lambda>c. c = CHR 0x0A \<or> c = CHR 0x0D) (rev s))"

type_synonym context_triple = "string option \<times> string \<times> string option"

text \<open>
  A file is the list of its raw lines, or \<open>None\<close> when it cannot be opened: both
  functions catch the exception and return the empty list.
\<close>

definition grep_lines :: "string list \<Rightarrow> string \<Rightarrow> context_triple list" where
  "grep_lines lines pattern =
     foldl (\<lambda>results i.
              if str_contains pattern (lines ! i) then
                results @ [(if i > 0 then Some (lines ! (i - 1)) else None,
                            lines ! i,
                            if int i < int (length lines) - 1 then Some (lines ! (i + 1)) else None)]
              else results)
       [] [0..<length lines]"

definition grep_with_context :: "string list option \<Rightarrow> string \<Rightarrow> context_triple list" where
  "grep_with_context file pattern =
     (case file of
        None \<Rightarrow> []
      | Some raw \<Rightarrow> grep_lines (map rstrip_newlines raw) pattern)"

text \<open>\<open>deque(maxlen=3).append\<close>: a full window drops its oldest element.\<close>

definition window_append :: "'a list \<Rightarrow> 'a \<Rightarrow> 'a list" where
  "window_append window x = (if length window = 3 then tl window @ [x] else window @ [x])"

text \<open>The first loop: at most two lines are taken from the file.\<close>

fun fill_window :: "nat \<Rightarrow> string list \<Rightarrow> string list \<Rightarrow> string list \<times> string list" where
  "fill_window 0 f window = (window, f)"
| "fill_window (Suc c) [] window = (window, [])"
| "fill_window (Suc c) (raw # f) window = fill_window c f (window_append window (rstrip_newlines raw))"

fun stream_loop ::
  "string \<Rightarrow> string list \<Rightarrow> string list \<Rightarrow> context_triple list \<Rightarrow> string list \<times> context_triple list" where
  "stream_loop pattern [] window results = (window, results)"
| "stream_loop pattern (raw # f) window results =
     (let line = rstrip_newlines raw;
          window = window_append window line;
          results =
            (if length window \<ge> 2 \<and> str_contains pattern (window ! (length window - 2)) then
               results @ [(if length window = 3 then Some (window ! 0) else None,
                           window ! (length window - 2),
                           Some (window ! (length window - 1)))]
             else results)
      in stream_loop pattern f window results)"

definition grep_with_context_streaming :: "string list option \<Rightarrow> string \<Rightarrow> context_triple list" where
  "grep_with_context_streaming file pattern =
     (case file of
        None \<Rightarrow> []
      | Some raw \<Rightarrow>
          (let (window, rest) = fill_window 2 raw [];
               (window, results) = stream_loop pattern rest window []
           in if length window \<ge> 1 \<and> str_contains pattern (window ! (length window - 1)) then
                results @ [(if length window \<ge> 2 then Some (window ! (length window - 2)) else None,
                            window ! (length window - 1),
                            None)]
              else results))"

section \<open>register\_simulator\_deep\_dive.py\<close>

text \<open>
  An entry of \<open>history\<close>. The position is a bit number, or the range of a field for
  \<open>insert_field\<close>. The two binary renderings that the source stores beside the values
  are functions of the values and of the width, and are left out.
\<close>

datatype log_position = BitPosition int | FieldRange int int

record log_entry =
  entry_operation :: string
  entry_position :: log_position
  entry_old_value :: int
  entry_new_value :: int

record AdvancedRegisterSimulator =
  reg_width :: int
  reg_name :: string
  reg_value :: int
  max_value :: int
  history :: "log_entry list"
  breakpoints :: "int set"

definition register_init :: "int \<Rightarrow> string \<Rightarrow> error + AdvancedRegisterSimulator" where
  "register_init width name =
     bind_err (py_shl 1 width) (\<lambda>p.
       Inr \<lparr>reg_width = width, reg_name = name, reg_value = 0, max_value = p - 1,
            history = [], breakpoints = {}\<rparr>)"

definition validate_position :: "AdvancedRegisterSimulator \<Rightarrow> int \<Rightarrow> bool" where
  "validate_position self position = (0 \<le> position \<and> position < reg_width self)"

definition log_operation ::
  "AdvancedRegisterSimulator \<Rightarrow> string \<Rightarrow> log_position \<Rightarrow> int \<Rightarrow> int \<Rightarrow> AdvancedRegisterSimulator" where
  "log_operation self opname pos old new =
     self\<lparr>history := history self @
            [\<lparr>entry_operation = opname, entry_position = pos,
              entry_old_value = old, entry_new_value = new\<rparr>]\<rparr>"

definition set_bit_reg ::
  "AdvancedRegisterSimulator \<Rightarrow> int \<Rightarrow> error + (bool \<times> AdvancedRegisterSimulator)" where
  "set_bit_reg self position =
     (if \<not> validate_position self position then Inr (False, self)
      else
        (let old_value = reg_value self in
         bind_err (py_shl 1 position) (\<lambda>b.
           let self = self\<lparr>reg_value := reg_value self OR b\<rparr>
           in Inr (True, log_operation self ''SET'' (BitPosition position) old_value (reg_value self)))))"

definition clear_bit_reg ::
  "AdvancedRegisterSimulator \<Rightarrow> int \<Rightarrow> error + (bool \<times> AdvancedRegisterSimulator)" where
  "clear_bit_reg self position =
     (if \<not> validate_position self position then Inr (False, self)
      else
        (let old_value = reg_value self in
         bind_err (py_shl 1 position) (\<lambda>b.
           let self = self\<lparr>reg_value := reg_value self AND NOT b\<rparr>
           in Inr (True, log_operation self ''CLEAR'' (BitPosition position) old_value (reg_value self)))))"

definition toggle_bit_reg ::
  "AdvancedRegisterSimulator \<Rightarrow> int \<Rightarrow> error + (bool \<times> AdvancedRegisterSimulator)" where
  "toggle_bit_reg self position =
     (if \<not> validate_position self position then Inr (False, self)
      else
        (let old_value = reg_value self in
         bind_err (py_shl 1 position) (\<lambda>b.
           let self = self\<lparr>reg_value := reg_value self XOR b\<rparr>
           in Inr (True, log_operation self ''TOGGLE'' (BitPosition position) old_value (reg_value self)))))"

text \<open>\<open>extract_field\<close> returns \<open>None\<close> when the field extends beyond the register.\<close>

definition extract_field :: "AdvancedRegisterSimulator \<Rightarrow> int \<Rightarrow> int \<Rightarrow> error + int option" where
  "extract_field self start_bit width =
     (if start_bit + width > reg_width self then Inr None
      else
        bind_err (py_shl 1 width) (\<lambda>p.
          let mask = p - 1 in
          bind_err (py_shr (reg_value self) start_bit) (\<lambda>shifted.
            Inr (Some (shifted AND mask)))))"

definition insert_field ::
  "AdvancedRegisterSimulator \<Rightarrow> int \<Rightarrow> int \<Rightarrow> int \<Rightarrow> error + (bool \<times> AdvancedRegisterSimulator)" where
  "insert_field self start_bit width v =
     (if start_bit + width > reg_width self then Inr (False, self)
      else
        bind_err (py_shl 1 width) (\<lambda>limit.
          if v \<ge> limit then Inr (False, self)
          else
            (let old_value = reg_value self in
             bind_err (py_shl 1 width) (\<lambda>p.
             bind_err (py_shl (p - 1) start_bit) (\<lambda>mask.
             bind_err (py_shl v start_bit) (\<lambda>shifted.
               let self = self\<lparr>reg_value := (reg_value self AND NOT mask) OR shifted\<rparr>
               in Inr (True, log_operation self ''INSERT_FIELD''
                               (FieldRange start_bit (start_bit + width - 1))
                               old_value (reg_value self))))))))"

text \<open>\<open>count %= self.width\<close> raises ZeroDivisionError on a register of width 0.\<close>

definition rotate_left :: "AdvancedRegisterSimulator \<Rightarrow> int \<Rightarrow> error + AdvancedRegisterSimulator" where
  "rotate_left self count =
     (if reg_width self = 0 then Inl ZeroDivisionError
      else
        (let count = count mod reg_width self;
             old_value = reg_value self in
         bind_err (py_shl (reg_value self) count) (\<lambda>hi.
         bind_err (py_shr (reg_value self) (reg_width self - count)) (\<lambda>lo.
           let self = self\<lparr>reg_value := (hi OR lo) AND max_value self\<rparr>
           in Inr (log_operation self ''ROTATE_LEFT'' (BitPosition count) old_value (reg_value self))))))"

definition rotate_right :: "AdvancedRegisterSimulator \<Rightarrow> int \<Rightarrow> error + AdvancedRegisterSimulator" where
  "rotate_right self count =
     (if reg_width self = 0 then Inl ZeroDivisionError
      else
        (let count = count mod reg_width self;
             old_value = reg_value self in
         bind_err (py_shr (reg_value self) count) (\<lambda>lo.
         bind_err (py_shl (reg_value self) (reg_width self - count)) (\<lambda>hi.
           let self = self\<lparr>reg_value := (lo OR hi) AND max_value self\<rparr>
           in Inr (log_operation self ''ROTATE_RIGHT'' (BitPosition count) old_value (reg_value self))))))"

text \<open>
  A call of one of the mutating methods, and a sequence of calls on one register. Every
  method raises before it assigns to the register, so a call that raises leaves the
  register as it was.
\<close>

datatype register_call =
    SetBit int
  | ClearBit int
  | ToggleBit int
  | InsertField int int int
  | RotateLeft int
  | RotateRight int

fun register_call_result ::
  "AdvancedRegisterSimulator \<Rightarrow> register_call \<Rightarrow> error + AdvancedRegisterSimulator" where
  "register_call_result self (SetBit p) = map_sum id snd (set_bit_reg self p)"
| "register_call_result self (ClearBit p) = map_sum id snd (clear_bit_reg self p)"
| "register_call_result self (ToggleBit p) = map_sum id snd (toggle_bit_reg self p)"
| "register_call_result self (InsertField s w v) = map_sum id snd (insert_field self s w v)"
| "register_call_result self (RotateLeft c) = rotate_left self c"
| "register_call_result self (RotateRight c) = rotate_right self c"

fun register_calls ::
  "AdvancedRegisterSimulator \<Rightarrow> register_call list \<Rightarrow> AdvancedRegisterSimulator" where
  "register_calls self [] = self"
| "register_calls self (c # cs) =
     (case register_call_result self c of
        Inl e \<Rightarrow> register_calls self cs
      | Inr self' \<Rightarrow> register_calls self' cs)"

section \<open>nvda-latency-min-max-avg-window-size-k.py\<close>



record 'a window_locals =
  window_sum :: 'a
  min_deque :: "nat list"
  max_deque :: "nat list"
  results :: "('a \<times> 'a \<times> 'a) list"











section \<open>Predicates used in the proofs\<close>

text \<open>The dictionary holds exactly the numbers seen so far, each with an index where it occurs.\<close>

definition seen_inv :: "(int \<rightharpoonup> nat) \<Rightarrow> int list \<Rightarrow> bool" where
  "seen_inv m pre =
     (\<forall>v. case m v of None \<Rightarrow> v \<notin> set pre | Some j \<Rightarrow> j < length pre \<and> pre ! j = v)"

text \<open>Indices \<open>a < b\<close> of \<open>xs\<close> whose elements sum to \<open>target\<close>.\<close>

definition pair_at :: "int list \<Rightarrow> int \<Rightarrow> nat \<Rightarrow> nat \<Rightarrow> bool" where
  "pair_at xs target a b = (a < b \<and> b < length xs \<and> xs ! a + xs ! b = target)"





text \<open>
  A register of width \<open>w\<close> whose value lies in \<open>[0, 2 ^ w)\<close>, and a call whose
  inserted value, if any, is not negative.
\<close>

definition register_ok :: "nat \<Rightarrow> AdvancedRegisterSimulator \<Rightarrow> bool" where
  "register_ok w self =
     (reg_width self = int w \<and> max_value self = 2 ^ w - 1
      \<and> take_bit w (reg_value self) = reg_value self)"

definition nonneg_insert :: "register_call \<Rightarrow> bool" where
  "nonneg_insert c = (case c of InsertField s wd v \<Rightarrow> 0 \<le> v | _ \<Rightarrow> True)"

section \<open>Powers of two\<close>

lemma pow2_half:
  fixes n :: int
  assumes "0 < n" "even n"
  shows "(\<exists>k. n = 2 ^ k) = (\<exists>k. n div 2 = 2 ^ k)"
proof
  assume "\<exists>k. n = 2 ^ k"
  then obtain k where k: "n = 2 ^ k" by blast
  with assms(2) have "k \<noteq> 0" by (cases k) auto
  then obtain j where "k = Suc j" by (cases k) auto
  with k have "n div 2 = 2 ^ j" by simp
  then show "\<exists>k. n div 2 = 2 ^ k" by blast
next
  assume "\<exists>k. n div 2 = 2 ^ k"
  then obtain k where "n div 2 = 2 ^ k" by blast
  with assms(2) have "n = 2 ^ Suc k" by auto
  then show "\<exists>k. n = 2 ^ k" by blast
qed

lemma pow2_odd:
  fixes n :: int
  assumes "odd n"
  shows "(\<exists>k. n = 2 ^ k) = (n = 1)"
proof
  assume "\<exists>k. n = 2 ^ k"
  then obtain k where k: "n = 2 ^ k" by blast
  with assms have "k = 0" by (cases k) auto
  with k show "n = 1" by simp
next
  assume "n = 1"
  then have "n = 2 ^ 0" by simp
  then show "\<exists>k. n = 2 ^ k" by blast
qed

lemma halve_while_even_pos:
  "0 < n \<Longrightarrow> \<exists>m. halve_while_even n = Some m \<and> (m = 1) = (\<exists>k. n = 2 ^ k)"
proof (induction "nat n" arbitrary: n rule: less_induct)
  case less
  show ?case
  proof (cases "n mod 2 = 0")
    case True
    have h1: "0 < n div 2" using less.prems True by presburger
    have h2: "nat (n div 2) < nat n" using less.prems by simp
    from less.hyps[OF h2 h1] obtain m where
      m: "halve_while_even (n div 2) = Some m" "(m = 1) = (\<exists>k. n div 2 = 2 ^ k)" by blast
    have "even n" using True by presburger
    from pow2_half[OF less.prems this] m True show ?thesis
      by (subst halve_while_even.simps) simp
  next
    case False
    then have "odd n" by presburger
    from pow2_odd[OF this] False show ?thesis
      by (subst halve_while_even.simps) simp
  qed
qed

lemma is_power_of_two_basic_iff: "is_power_of_two_basic n = Some (\<exists>k. n = 2 ^ k)"
proof (cases "n \<le> 0")
  case True
  have "\<not> (\<exists>k. n = 2 ^ k)"
  proof
    assume "\<exists>k. n = 2 ^ k"
    then obtain k where "n = 2 ^ k" by blast
    then have "0 < n" by simp
    with True show False by simp
  qed
  with True show ?thesis by (simp add: is_power_of_two_basic_def)
next
  case False
  then have "0 < n" by simp
  from halve_while_even_pos[OF this] False show ?thesis
    by (auto simp: is_power_of_two_basic_def)
qed

lemma pow2_and_pred: "((2::int) ^ k) AND (2 ^ k - 1) = 0"
  by (rule bit_eqI) (auto simp: bit_and_iff bit_exp_iff bit_mask_iff simp flip: mask_eq_exp_minus_1)

lemma and_pred_zero_pow2:
  "0 < n \<Longrightarrow> (n AND (n - 1)) = 0 \<Longrightarrow> \<exists>k. n = 2 ^ k" for n :: int
proof (induction "nat n" arbitrary: n rule: less_induct)
  case less
  have rec: "(n AND (n - 1)) = 2 * ((n div 2) AND ((n - 1) div 2))"
    by (subst and_int_rec) auto
  show ?case
  proof (cases "even n")
    case True
    have h1: "0 < n div 2" using less.prems(1) True by presburger
    have h2: "nat (n div 2) < nat n" using less.prems by simp
    have "(n - 1) div 2 = n div 2 - 1" using True by presburger
    with rec less.prems(2) have "((n div 2) AND (n div 2 - 1)) = 0" by simp
    from less.hyps[OF h2 h1 this] pow2_half[OF less.prems(1) True] show ?thesis by simp
  next
    case False
    then have "(n - 1) div 2 = n div 2" by presburger
    with rec less.prems(2) have "n div 2 = 0" by simp
    with False have "n = 1" by presburger
    with pow2_odd[OF False] show ?thesis by simp
  qed
qed

lemma is_power_of_two_bit_manipulation_iff: "is_power_of_two_bit_manipulation n = (\<exists>k. n = 2 ^ k)"
proof
  assume "is_power_of_two_bit_manipulation n"
  then show "\<exists>k. n = 2 ^ k"
    using and_pred_zero_pow2 by (simp add: is_power_of_two_bit_manipulation_def)
next
  assume "\<exists>k. n = 2 ^ k"
  then obtain k where "n = 2 ^ k" by blast
  then show "is_power_of_two_bit_manipulation n"
    by (simp add: is_power_of_two_bit_manipulation_def pow2_and_pred)
qed

text \<open>
  Claim C4. For every integer \<open>n\<close>, zero and negative values included,
  \<open>is_power_of_two_basic\<close> returns (its loop terminates) and both it and
  \<open>is_power_of_two_bit_manipulation\<close> return True exactly when \<open>n\<close> is \<open>2 ^ k\<close>
  for some natural number \<open>k\<close>; both return True on 8.
\<close>

theorem is_power_of_two_correct:
  "is_power_of_two_basic n = Some (\<exists>k. n = 2 ^ k)
   \<and> is_power_of_two_bit_manipulation n = (\<exists>k. n = 2 ^ k)
   \<and> is_power_of_two_basic 8 = Some True
   \<and> is_power_of_two_bit_manipulation 8"
proof -
  have "is_power_of_two_basic 8 = Some True"
    by (simp add: is_power_of_two_basic_def halve_while_even.simps)
  moreover have "is_power_of_two_bit_manipulation 8"
    by (simp add: is_power_of_two_bit_manipulation_def)
  ultimately show ?thesis
    by (simp add: is_power_of_two_basic_iff is_power_of_two_bit_manipulation_iff)
qed

section \<open>Bit reversal\<close>

lemma bit_reverse_bits_loop:
  "bit (reverse_bits_loop c n r) i = (if i < c then bit n (c - 1 - i) else bit r (i - c))"
proof (induction c arbitrary: n r)
  case 0
  show ?case by simp
next
  case (Suc c)
  define n' where "n' = drop_bit 1 n"
  define r' where "r' = (push_bit 1 r) OR (n AND 1)"
  have step: "reverse_bits_loop (Suc c) n r = reverse_bits_loop c n' r'"
    by (simp add: n'_def r'_def Let_def)
  have bn: "bit n' j = bit n (Suc j)" for j
    by (simp add: n'_def bit_drop_bit_eq)
  have br0: "bit r' 0 = bit n 0"
    by (simp add: r'_def bit_0 even_or_iff even_and_iff)
  have brS: "bit r' (Suc j) = bit r j" for j
    unfolding r'_def by (simp only: bit_or_iff bit_and_iff bit_push_bit_iff bit_1_iff) simp
  show ?case
  proof (cases "i < c")
    case True
    then show ?thesis unfolding step Suc.IH by (simp add: bn Suc_diff_Suc)
  next
    case False
    show ?thesis
    proof (cases "i = c")
      case True
      then show ?thesis unfolding step Suc.IH by (simp add: br0)
    next
      case False
      with \<open>\<not> i < c\<close> have "c < i" by simp
      then obtain d where d: "i - c = Suc d" "i - Suc c = d" by (cases "i - c") auto
      with \<open>c < i\<close> show ?thesis unfolding step Suc.IH by (simp add: brS)
    qed
  qed
qed

lemma bit_reverse_bits: "bit (reverse_bits n) i = (i < 32 \<and> bit n (31 - i))"
  by (simp add: reverse_bits_def bit_reverse_bits_loop)

lemma reverse_bits_take_bit: "take_bit 32 (reverse_bits n) = reverse_bits n"
  by (rule bit_eqI) (auto simp: bit_take_bit_iff bit_reverse_bits)

lemma reverse_bits_range: "0 \<le> reverse_bits n \<and> reverse_bits n < 2 ^ 32"
proof -
  have "0 \<le> take_bit 32 (reverse_bits n)" by simp
  moreover have "take_bit 32 (reverse_bits n) < 2 ^ 32" by (rule take_bit_int_less_exp)
  ultimately show ?thesis by (simp add: reverse_bits_take_bit)
qed

lemma reverse_bits_unique:
  fixes r :: int
  assumes "0 \<le> r" "r < 2 ^ 32" "\<forall>i<32. bit r i = bit n (31 - i)"
  shows "r = reverse_bits n"
proof -
  have "take_bit 32 r = r" using assms(1,2) by (simp add: take_bit_int_eq_self)
  moreover have "take_bit 32 r = take_bit 32 (reverse_bits n)"
    by (rule bit_eqI) (use assms(3) in \<open>auto simp: bit_take_bit_iff bit_reverse_bits\<close>)
  ultimately show ?thesis by (simp add: reverse_bits_take_bit)
qed

lemma reverse_bits_13: "reverse_bits 13 = 2952790016"
  by (simp add: reverse_bits_def eval_nat_numeral Let_def)

text \<open>
  Claim C3. For every \<open>n\<close> with \<open>0 \<le> n < 2 ^ 32\<close>, \<open>reverse_bits n\<close> lies in
  \<open>[0, 2 ^ 32)\<close>, its bit \<open>i\<close> is bit \<open>31 - i\<close> of \<open>n\<close> for every \<open>i < 32\<close>, it is
  the only integer of that range with these bits, and \<open>reverse_bits 13 = 2952790016\<close>.
\<close>

theorem reverse_bits_correct:
  "0 \<le> n \<Longrightarrow> n < 2 ^ 32 \<Longrightarrow>
     0 \<le> reverse_bits n \<and> reverse_bits n < 2 ^ 32
     \<and> (\<forall>i<32. bit (reverse_bits n) i = bit n (31 - i))
     \<and> (\<forall>r. 0 \<le> r \<and> r < 2 ^ 32 \<and> (\<forall>i<32. bit r i = bit n (31 - i)) \<longrightarrow> r = reverse_bits n)
     \<and> reverse_bits 13 = 2952790016"
  using reverse_bits_range reverse_bits_unique reverse_bits_13
  by (simp add: bit_reverse_bits)

theorem reverse_bits_correct_witness:
  "(0::int) \<le> 13 \<and> (13::int) < 2 ^ 32
   \<and> 0 \<le> reverse_bits 13 \<and> reverse_bits 13 < 2 ^ 32
   \<and> bit (reverse_bits 13) 28 = bit (13::int) 3
   \<and> reverse_bits 13 = 2952790016"
  using reverse_bits_correct [of 13] by simp

section \<open>The script reverse-list.py\<close>

text \<open>
  Claim C2 says that every script runs to completion without an uncaught exception.
  Run as a program, reverse-list.py raises NameError in the first iteration of its
  loop: the module binds neither \<open>n\<close> nor \<open>result\<close> before the loop reads them.
\<close>

theorem reverse_list_script_raises: "reverse_list_script = Inl NameError"
  by (simp add: reverse_list_script_def upt_rec reverse_list_body_def load_name_def bind_err_def)

section \<open>Two-sum\<close>

lemma seen_inv_empty: "seen_inv Map.empty []"
  by (simp add: seen_inv_def)

lemma seen_inv_step:
  assumes "seen_inv m pre"
  shows "seen_inv (m(num \<mapsto> length pre)) (pre @ [num])"
  unfolding seen_inv_def
proof
  fix v
  show "case (m(num \<mapsto> length pre)) v of None \<Rightarrow> v \<notin> set (pre @ [num])
        | Some j \<Rightarrow> j < length (pre @ [num]) \<and> (pre @ [num]) ! j = v"
  proof (cases "v = num")
    case True
    then show ?thesis by simp
  next
    case False
    from assms have "case m v of None \<Rightarrow> v \<notin> set pre | Some j \<Rightarrow> j < length pre \<and> pre ! j = v"
      by (simp add: seen_inv_def)
    with False show ?thesis by (auto split: option.splits simp: nth_append)
  qed
qed

lemma optimized_two_sum_loop_correct:
  assumes "seen_inv m pre"
  shows "(optimized_two_sum_loop m (length pre) rest target = []
            \<and> \<not> (\<exists>a b. length pre \<le> b \<and> pair_at (pre @ rest) target a b))
         \<or> (\<exists>a b. optimized_two_sum_loop m (length pre) rest target = [a, b]
                \<and> pair_at (pre @ rest) target a b)"
  using assms
proof (induction rest arbitrary: m pre)
  case Nil
  then show ?case by (simp add: pair_at_def)
next
  case (Cons num rest)
  show ?case
  proof (cases "m (target - num)")
    case (Some j)
    with Cons.prems have "j < length pre" "pre ! j = target - num"
      by (auto simp: seen_inv_def split: option.splits dest: spec[of _ "target - num"])
    then have "pair_at (pre @ num # rest) target j (length pre)"
      by (simp add: pair_at_def nth_append)
    with Some show ?thesis by simp
  next
    case None
    with Cons.prems have notin: "target - num \<notin> set pre"
      by (auto simp: seen_inv_def split: option.splits dest: spec[of _ "target - num"])
    have nopair: "\<not> pair_at (pre @ num # rest) target a (length pre)" for a
    proof
      assume "pair_at (pre @ num # rest) target a (length pre)"
      then have "a < length pre" "pre ! a + num = target"
        by (auto simp: pair_at_def nth_append)
      then have "target - num \<in> set pre" by (metis add_diff_cancel_right' nth_mem)
      with notin show False by simp
    qed
    have step: "optimized_two_sum_loop m (length pre) (num # rest) target
            = optimized_two_sum_loop (m(num \<mapsto> length pre)) (length (pre @ [num])) rest target"
      using None by simp
    from Cons.IH[OF seen_inv_step[OF Cons.prems], of num]
    consider
      (none) "optimized_two_sum_loop (m(num \<mapsto> length pre)) (length (pre @ [num])) rest target = []"
             "\<not> (\<exists>a b. length (pre @ [num]) \<le> b \<and> pair_at ((pre @ [num]) @ rest) target a b)"
    | (found) a b where
        "optimized_two_sum_loop (m(num \<mapsto> length pre)) (length (pre @ [num])) rest target = [a, b]"
        "pair_at ((pre @ [num]) @ rest) target a b"
      by blast
    then show ?thesis
    proof cases
      case none
      have "\<not> (\<exists>a b. length pre \<le> b \<and> pair_at (pre @ num # rest) target a b)"
      proof
        assume "\<exists>a b. length pre \<le> b \<and> pair_at (pre @ num # rest) target a b"
        then obtain a b where ab: "length pre \<le> b" "pair_at (pre @ num # rest) target a b" by blast
        show False
        proof (cases "b = length pre")
          case True
          with ab nopair show False by simp
        next
          case False
          with ab(1) have "length (pre @ [num]) \<le> b" by simp
          with none(2) ab(2) show False by auto
        qed
      qed
      with none(1) step show ?thesis by simp
    next
      case found
      with step show ?thesis by auto
    qed
  qed
qed

lemma two_sum_hash_table_loop_eq:
  "two_sum_hash_table_loop m i xs target = optimized_two_sum_loop m i xs target"
  by (induction xs arbitrary: m i) (auto simp: Let_def dom_def split: option.splits)

lemma optimized_two_sum_cases:
  "(optimized_two_sum nums target = [] \<and> \<not> (\<exists>a b. pair_at nums target a b))
   \<or> (\<exists>a b. optimized_two_sum nums target = [a, b] \<and> pair_at nums target a b)"
  using optimized_two_sum_loop_correct[OF seen_inv_empty, of nums target]
  by (simp add: optimized_two_sum_def)

text \<open>
  Claim C5. Whenever two distinct indices of \<open>nums\<close> hold elements that sum to
  \<open>target\<close>, \<open>optimized_two_sum\<close> returns a list \<open>[i, j]\<close> with \<open>i < j\<close>, both in
  range, and \<open>nums[i] + nums[j] = target\<close>; when there is no such pair it returns
  \<open>[]\<close>. \<open>two_sum_hash_table\<close> returns the same list, and on \<open>[2, 7, 11, 15]\<close>
  with target 9 the result is \<open>[0, 1]\<close>.
\<close>

theorem two_sum_correct:
  "((\<exists>i j. i < j \<and> j < length nums \<and> nums ! i + nums ! j = target) \<longrightarrow>
      (\<exists>i j. optimized_two_sum nums target = [i, j]
             \<and> i < j \<and> j < length nums \<and> nums ! i + nums ! j = target))
   \<and> (\<not> (\<exists>i j. i < j \<and> j < length nums \<and> nums ! i + nums ! j = target) \<longrightarrow>
        optimized_two_sum nums target = [])
   \<and> two_sum_hash_table nums target = optimized_two_sum nums target
   \<and> optimized_two_sum [2, 7, 11, 15] 9 = [0, 1]"
proof -
  have ex: "optimized_two_sum [2, 7, 11, 15] 9 = [0, 1]"
    by (simp add: optimized_two_sum_def)
  have eq: "two_sum_hash_table nums target = optimized_two_sum nums target"
    by (simp add: two_sum_hash_table_def optimized_two_sum_def two_sum_hash_table_loop_eq)
  from optimized_two_sum_cases[of nums target] ex eq show ?thesis
    unfolding pair_at_def by blast
qed

theorem two_sum_correct_witness:
  "(\<exists>i j. i < j \<and> j < length [2, 7, 11, 15 :: int] \<and> [2, 7, 11, 15] ! i + [2, 7, 11, 15] ! j = (9::int))
   \<and> (\<exists>i j. optimized_two_sum [2, 7, 11, 15] 9 = [i, j] \<and> i < j)
   \<and> \<not> (\<exists>i j. i < j \<and> j < length [1, 2 :: int] \<and> [1, 2] ! i + [1, 2] ! j = (10::int))
   \<and> optimized_two_sum [1, 2] 10 = []"
proof -
  have h: "\<exists>i j. i < j \<and> j < length [2, 7, 11, 15 :: int] \<and> [2, 7, 11, 15] ! i + [2, 7, 11, 15] ! j = (9::int)"
    by (rule exI[of _ 0], rule exI[of _ 1]) simp
  have n: "\<not> (\<exists>i j. i < j \<and> j < length [1, 2 :: int] \<and> [1, 2] ! i + [1, 2] ! j = (10::int))"
    by (auto simp: less_Suc_eq nth_Cons')
  from two_sum_correct[of "[2, 7, 11, 15]" 9] h
  have a: "\<exists>i j. optimized_two_sum [2, 7, 11, 15] 9 = [i, j] \<and> i < j" by blast
  from two_sum_correct[of "[1, 2]" 10] n
  have b: "optimized_two_sum [1, 2] 10 = []" by blast
  from h a n b show ?thesis by blast
qed

section \<open>Binary search\<close>

lemma py_index_in_range:
  "0 \<le> i \<Longrightarrow> i < int (length xs) \<Longrightarrow> py_index xs i = Inr (xs ! nat i)"
  by (simp add: py_index_def Let_def)

lemma safe_binary_search_loop_correct:
  assumes "sorted arr" "0 \<le> left" "right < int (length arr)"
    and "\<And>j. j < length arr \<Longrightarrow> int j < left \<Longrightarrow> arr ! j < target"
    and "\<And>j. j < length arr \<Longrightarrow> right < int j \<Longrightarrow> target < arr ! j"
  shows "(target \<in> set arr \<longrightarrow>
            (\<exists>i. safe_binary_search_loop arr target left right = Inr i
                 \<and> 0 \<le> i \<and> i < int (length arr) \<and> arr ! nat i = target))
         \<and> (target \<notin> set arr \<longrightarrow> safe_binary_search_loop arr target left right = Inr (- 1))"
  using assms
proof (induction arr target left right rule: safe_binary_search_loop.induct)
  case (1 arr target left right)
  show ?case
  proof (cases "left \<le> right")
    case False
    have "target \<notin> set arr"
    proof
      assume "target \<in> set arr"
      then obtain j where j: "j < length arr" "arr ! j = target" by (auto simp: in_set_conv_nth)
      from False have "int j < left \<or> right < int j" by linarith
      with "1.prems"(4)[OF j(1)] "1.prems"(5)[OF j(1)] j(2) show False by auto
    qed
    with False show ?thesis by (subst safe_binary_search_loop.simps) simp
  next
    case True
    define mid where "mid = left + (right - left) div 2"
    have mid: "left \<le> mid" "mid \<le> right" using True unfolding mid_def by linarith+
    then have mid_rng: "0 \<le> mid" "mid < int (length arr)" using "1.prems"(2,3) by linarith+
    have idx: "py_index arr mid = Inr (arr ! nat mid)"
      by (rule py_index_in_range[OF mid_rng])
    have nm: "nat mid < length arr" using mid_rng by linarith
    show ?thesis
    proof (cases "arr ! nat mid = target")
      case eq: True
      have "safe_binary_search_loop arr target left right = Inr mid"
        using True eq idx by (subst safe_binary_search_loop.simps) (simp add: mid_def[symmetric] Let_def)
      with eq mid_rng nm show ?thesis by auto
    next
      case neq: False
      show ?thesis
      proof (cases "arr ! nat mid < target")
        case lt: True
        have step: "safe_binary_search_loop arr target left right
                  = safe_binary_search_loop arr target (mid + 1) right"
          using True neq lt idx
          by (subst safe_binary_search_loop.simps) (simp add: mid_def[symmetric] Let_def)
        have low: "arr ! j < target" if "j < length arr" "int j < mid + 1" for j
        proof -
          from that have "j \<le> nat mid" by linarith
          with \<open>sorted arr\<close> nm have "arr ! j \<le> arr ! nat mid" by (simp add: sorted_iff_nth_mono)
          with lt show ?thesis by simp
        qed
        have "0 \<le> mid + 1" using mid_rng by simp
        from "1.IH"(1)[OF True mid_def idx neq lt \<open>sorted arr\<close> this "1.prems"(3) low "1.prems"(5)]
        show ?thesis unfolding step by simp
      next
        case nlt: False
        with neq have gt: "target < arr ! nat mid" by simp
        have step: "safe_binary_search_loop arr target left right
                  = safe_binary_search_loop arr target left (mid - 1)"
          using True neq nlt idx
          by (subst safe_binary_search_loop.simps) (simp add: mid_def[symmetric] Let_def)
        have high: "target < arr ! j" if "j < length arr" "mid - 1 < int j" for j
        proof -
          from that mid_rng have "nat mid \<le> j" by linarith
          with \<open>sorted arr\<close> that(1) have "arr ! nat mid \<le> arr ! j" by (simp add: sorted_iff_nth_mono)
          with gt show ?thesis by simp
        qed
        have "mid - 1 < int (length arr)" using mid_rng by simp
        from "1.IH"(2)[OF True mid_def idx neq nlt \<open>sorted arr\<close> "1.prems"(2) this "1.prems"(4) high]
        show ?thesis unfolding step by simp
      qed
    qed
  qed
qed

text \<open>
  Claim C6. On a list sorted in non-decreasing order, \<open>safe_binary_search\<close> returns
  without raising: an index \<open>i\<close> in range with \<open>arr[i] = target\<close> when the target
  occurs in the list, and \<open>-1\<close> when it does not, the empty list included.
\<close>

theorem safe_binary_search_correct:
  assumes "sorted arr"
  shows "(target \<in> set arr \<longrightarrow>
            (\<exists>i. safe_binary_search arr target = Inr i
                 \<and> 0 \<le> i \<and> i < int (length arr) \<and> arr ! nat i = target))
         \<and> (target \<notin> set arr \<longrightarrow> safe_binary_search arr target = Inr (- 1))
         \<and> safe_binary_search [] target = Inr (- 1)"
proof (cases "arr = []")
  case True
  then show ?thesis by (simp add: safe_binary_search_def)
next
  case False
  have "(target \<in> set arr \<longrightarrow>
            (\<exists>i. safe_binary_search_loop arr target 0 (int (length arr) - 1) = Inr i
                 \<and> 0 \<le> i \<and> i < int (length arr) \<and> arr ! nat i = target))
         \<and> (target \<notin> set arr \<longrightarrow>
              safe_binary_search_loop arr target 0 (int (length arr) - 1) = Inr (- 1))"
    by (rule safe_binary_search_loop_correct[OF assms]) auto
  with False show ?thesis by (simp add: safe_binary_search_def)
qed

theorem safe_binary_search_correct_witness:
  "sorted [1, 3, 5, 7 :: int] \<and> (5::int) \<in> set [1, 3, 5, 7] \<and> (4::int) \<notin> set [1, 3, 5, 7]
   \<and> (\<exists>i. safe_binary_search [1, 3, 5, 7 :: int] 5 = Inr i \<and> [1, 3, 5, 7 :: int] ! nat i = 5)
   \<and> safe_binary_search [1, 3, 5, 7 :: int] 4 = Inr (- 1)"
proof -
  have s: "sorted [1, 3, 5, 7 :: int]" by simp
  from safe_binary_search_correct[OF s, of 5]
  have a: "\<exists>i. safe_binary_search [1, 3, 5, 7 :: int] 5 = Inr i \<and> [1, 3, 5, 7 :: int] ! nat i = 5"
    by auto
  from safe_binary_search_correct[OF s, of 4]
  have b: "safe_binary_search [1, 3, 5, 7 :: int] 4 = Inr (- 1)" by simp
  from s a b show ?thesis by simp
qed

section \<open>The LTSSM trace\<close>

text \<open>
  Claim C7 says that \<open>first_l0_time\<close> is the timestamp of the earliest event in state
  L0, also when that event is the first row. The loop of \<open>parse_ltssm_trace\<close> starts at
  the second event, so an L0 in the first row is not seen: on a trace whose first row is
  in L0 at time 0 and whose second row is in Recovery, the result is \<open>None\<close>.
\<close>

theorem first_l0_time_skips_first_row:
  "first_l0_time (parse_ltssm_trace
      [\<lparr>timestamp = 0, state = ''L0'', data = ''''\<rparr>,
       \<lparr>timestamp = 1, state = ''Recovery'', data = ''''\<rparr>]) = None"
  by (simp add: parse_ltssm_trace_def ltssm_step_def Let_def)

section \<open>Log grep with context\<close>

text \<open>
  Claim C8 says that the two grep functions return the same triples. The streaming
  function never tests the first line of a file of two or more lines: on the lines
  "ERROR a" and "b" with pattern "ERROR", \<open>grep_with_context\<close> returns the match with
  its context and \<open>grep_with_context_streaming\<close> returns nothing.
\<close>

theorem grep_streaming_misses_first_line:
  "grep_with_context (Some [''ERROR a'' @ [CHR 0x0A], ''b'']) ''ERROR''
     = [(None, ''ERROR a'', Some ''b'')]
   \<and> grep_with_context_streaming (Some [''ERROR a'' @ [CHR 0x0A], ''b'']) ''ERROR'' = []"
  by (simp add: grep_with_context_def grep_lines_def grep_with_context_streaming_def
        rstrip_newlines_def window_append_def upt_rec Let_def eval_nat_numeral)

section \<open>The register simulator\<close>

text \<open>
  When no call of \<open>insert_field\<close> passes a negative value, every sequence of calls keeps
  the value of a register within \<open>0 \<le> value \<le> 2 ^ w - 1\<close>.
\<close>

lemma bit_below_width:
  fixes x :: int
  shows "take_bit w x = x \<Longrightarrow> bit x i \<Longrightarrow> i < w"
  by (metis bit_take_bit_iff)

lemma take_bit_set:
  fixes x :: int
  assumes "take_bit w x = x" "p < w"
  shows "take_bit w (x OR push_bit p 1) = x OR push_bit p 1"
  by (rule bit_eqI) (use assms bit_below_width[OF assms(1)] in \<open>auto simp: bit_simps\<close>)

lemma take_bit_clear:
  fixes x :: int
  assumes "take_bit w x = x"
  shows "take_bit w (x AND NOT y) = x AND NOT y"
  by (rule bit_eqI) (use bit_below_width[OF assms] in \<open>auto simp: bit_simps\<close>)

lemma take_bit_toggle:
  fixes x :: int
  assumes "take_bit w x = x" "p < w"
  shows "take_bit w (x XOR push_bit p 1) = x XOR push_bit p 1"
  by (rule bit_eqI) (use assms bit_below_width[OF assms(1)] in \<open>auto simp: bit_simps\<close>)

lemma take_bit_insert:
  fixes x v :: int
  assumes "take_bit w x = x" "0 \<le> v" "v < 2 ^ wd" "s + wd \<le> w"
  shows "take_bit w ((x AND NOT m) OR push_bit s v) = (x AND NOT m) OR push_bit s v"
proof -
  have v: "take_bit wd v = v" using assms(2,3) by (simp add: take_bit_int_eq_self)
  have "i < w" if "s \<le> i" "bit v (i - s)" for i
    using bit_below_width[OF v that(2)] that(1) assms(4) by linarith
  then show ?thesis
    by (intro bit_eqI) (use bit_below_width[OF assms(1)] in \<open>auto simp: bit_simps\<close>)
qed

lemma register_call_ok:
  assumes ok: "register_ok w self" and nn: "nonneg_insert c"
    and res: "register_call_result self c = Inr self'"
  shows "register_ok w self'"
proof (cases c)
  case (SetBit p)
  with ok res show ?thesis
    by (auto simp: register_ok_def set_bit_reg_def validate_position_def bind_err_def py_shl_def
          log_operation_def Let_def take_bit_set split: if_splits)
next
  case (ClearBit p)
  from ok have t: "take_bit w (reg_value self) = reg_value self" by (simp add: register_ok_def)
  from take_bit_clear[OF t, of "2 ^ nat p"] ClearBit ok res show ?thesis
    by (auto simp: register_ok_def clear_bit_reg_def validate_position_def bind_err_def py_shl_def
          log_operation_def Let_def split: if_splits)
next
  case (ToggleBit p)
  with ok res show ?thesis
    by (auto simp: register_ok_def toggle_bit_reg_def validate_position_def bind_err_def py_shl_def
          log_operation_def Let_def take_bit_toggle split: if_splits)
next
  case (InsertField s wd v)
  with nn have v: "0 \<le> v" by (simp add: nonneg_insert_def)
  show ?thesis
  proof (cases "s + wd > int w \<or> wd < 0 \<or> s < 0 \<or> v \<ge> 2 ^ nat wd")
    case True
    with ok res InsertField show ?thesis
      by (auto simp: register_ok_def insert_field_def bind_err_def py_shl_def
            log_operation_def Let_def split: if_splits)
  next
    case False
    then have b: "nat s + nat wd \<le> w" "v < 2 ^ nat wd" "0 \<le> s" "0 \<le> wd" by auto
    from ok have t: "take_bit w (reg_value self) = reg_value self" by (simp add: register_ok_def)
    from take_bit_insert[OF t v b(2) b(1)] False ok res InsertField show ?thesis
      by (auto simp: register_ok_def insert_field_def bind_err_def py_shl_def
            log_operation_def Let_def split: if_splits)
  qed
next
  case (RotateLeft n)
  with ok res show ?thesis
    by (auto simp: register_ok_def rotate_left_def bind_err_def py_shl_def py_shr_def
          log_operation_def Let_def take_bit_eq_mask mask_eq_exp_minus_1 split: if_splits)
next
  case (RotateRight n)
  with ok res show ?thesis
    by (auto simp: register_ok_def rotate_right_def bind_err_def py_shl_def py_shr_def
          log_operation_def Let_def take_bit_eq_mask mask_eq_exp_minus_1 split: if_splits)
qed

lemma register_calls_ok:
  "register_ok w self \<Longrightarrow> list_all nonneg_insert cs \<Longrightarrow> register_ok w (register_calls self cs)"
proof (induction cs arbitrary: self)
  case Nil
  then show ?case by simp
next
  case (Cons c cs)
  then show ?case
    by (cases "register_call_result self c") (auto dest: register_call_ok)
qed

lemma register_init_ok:
  "register_init width name = Inr self \<Longrightarrow> 0 \<le> width \<and> register_ok (nat width) self"
  by (auto simp: register_init_def bind_err_def py_shl_def register_ok_def split: if_splits)

lemma register_value_in_range:
  assumes "register_init width name = Inr self" "list_all nonneg_insert cs"
  shows "0 \<le> reg_value (register_calls self cs)
         \<and> reg_value (register_calls self cs) \<le> 2 ^ nat width - 1"
proof -
  from register_init_ok[OF assms(1)] register_calls_ok[OF _ assms(2)]
  have "take_bit (nat width) (reg_value (register_calls self cs)) = reg_value (register_calls self cs)"
    by (simp add: register_ok_def)
  moreover have "0 \<le> take_bit (nat width) (reg_value (register_calls self cs))" by simp
  moreover have "take_bit (nat width) (reg_value (register_calls self cs)) < 2 ^ nat width"
    by (rule take_bit_int_less_exp)
  ultimately show ?thesis by simp
qed

text \<open>
  Claim C9 says that the register value stays within \<open>0 \<le> value \<le> 2 ^ w - 1\<close> under
  every sequence of calls. \<open>insert_field\<close> rejects a value that is too large and accepts
  a negative one: on a fresh register of width 8, \<open>insert_field(0, 1, -1)\<close> returns True
  and leaves the value \<open>-1\<close>, below the range whose upper end \<open>max_value\<close> is 255.
\<close>

theorem insert_field_negative_value:
  "map_sum id (\<lambda>(ok, r). (ok, reg_value r, max_value r))
     (bind_err (register_init 8 ''REG'') (\<lambda>r. insert_field r 0 1 (- 1)))
   = Inr (True, - 1, 255)"
  by (simp add: register_init_def insert_field_def bind_err_def py_shl_def log_operation_def Let_def)

text \<open>
  Claim C10 as stated, for every field with \<open>start_bit + width \<le> w\<close> and every value
  \<open>v < 2 ^ width\<close>, fails where an argument is negative: a negative \<open>start_bit\<close> or
  \<open>width\<close> makes \<open>insert_field\<close> raise ValueError (a negative shift count), and after
  \<open>insert_field(0, 4, -1)\<close> the call \<open>extract_field(0, 4)\<close> returns 15.
\<close>

theorem insert_extract_counterexample:
  "map_sum id fst (insert_field \<lparr>reg_width = 8, reg_name = ''REG'', reg_value = 0, max_value = 255,
        history = [], breakpoints = {}\<rparr> (- 1) 1 0) = Inl ValueError
   \<and> map_sum id fst (insert_field \<lparr>reg_width = 8, reg_name = ''REG'', reg_value = 0, max_value = 255,
        history = [], breakpoints = {}\<rparr> 2 (- 1) 0) = Inl ValueError
   \<and> bind_err (insert_field \<lparr>reg_width = 8, reg_name = ''REG'', reg_value = 0, max_value = 255,
        history = [], breakpoints = {}\<rparr> 0 4 (- 1)) (\<lambda>(ok, r). extract_field r 0 4) = Inr (Some 15)"
  by (simp add: insert_field_def extract_field_def bind_err_def py_shl_def py_shr_def
        log_operation_def Let_def)

lemma field_roundtrip_bits:
  fixes x v :: int
  assumes "0 \<le> v" "v < 2 ^ w"
  shows "(drop_bit s ((x AND NOT (push_bit s (2 ^ w - 1))) OR push_bit s v)) AND (2 ^ w - 1) = v"
proof -
  have v: "take_bit w v = v" using assms by (simp add: take_bit_int_eq_self)
  have "(drop_bit s ((x AND NOT (push_bit s (mask w))) OR push_bit s v)) AND mask w = take_bit w v"
    by (rule bit_eqI) (auto simp: bit_simps)
  then show ?thesis by (simp add: v mask_eq_exp_minus_1)
qed

text \<open>
  Claim C10, amended. For a register of width \<open>w\<close>, every field with
  \<open>0 \<le> start_bit\<close>, \<open>0 \<le> width\<close> and \<open>start_bit + width \<le> w\<close>, and every value
  \<open>0 \<le> v < 2 ^ width\<close>: \<open>insert_field(start_bit, width, v)\<close> returns True and
  \<open>extract_field(start_bit, width)\<close> on the updated register returns \<open>v\<close>.
\<close>

theorem insert_extract_roundtrip:
  assumes "0 \<le> start_bit" "0 \<le> width" "start_bit + width \<le> reg_width self"
    and "0 \<le> v" "v < 2 ^ nat width"
  shows "\<exists>self'. insert_field self start_bit width v = Inr (True, self')
           \<and> extract_field self' start_bit width = Inr (Some v)"
  using assms field_roundtrip_bits[of v "nat width" "nat start_bit" "reg_value self"]
  by (simp add: insert_field_def extract_field_def bind_err_def py_shl_def py_shr_def
        log_operation_def Let_def)

theorem insert_extract_roundtrip_witness:
  "(0::int) \<le> 4 \<and> (0::int) \<le> 3 \<and> (4::int) + 3 \<le> 8 \<and> (0::int) \<le> 5 \<and> (5::int) < 2 ^ nat 3
   \<and> (\<exists>self'. insert_field \<lparr>reg_width = 8, reg_name = ''REG'', reg_value = 255, max_value = 255,
        history = [], breakpoints = {}\<rparr> 4 3 5 = Inr (True, self')
      \<and> extract_field self' 4 3 = Inr (Some 5))"
  using insert_extract_roundtrip [of 4 3 "\<lparr>reg_width = 8, reg_name = ''REG'', reg_value = 255, max_value = 255,
        history = [], breakpoints = {}\<rparr>" 5]
  by simp

section \<open>Sliding-window statistics\<close>






















end
